theory Spec2Isabelle
  imports Complex_Main
begin

section \<open>The rules engine as the program sees it\<close>

text \<open>
  \<^verbatim>\<open>chess.py\<close> delegates every rule of chess to the python-chess library: a
  \<^verbatim>\<open>State\<close> wraps a \<^verbatim>\<open>chess.Board\<close> and asks it questions. The library is not part
  of the repository, so a board is modelled by the answers the library gives for it.
  Colours are booleans, as in the library (\<^verbatim>\<open>chess.WHITE = True\<close>), squares are the
  numbers 0 (a1) to 63 (h8).
\<close>

type_synonym square = nat
type_synonym color = bool

abbreviation WHITE :: color where "WHITE \<equiv> True"
abbreviation BLACK :: color where "BLACK \<equiv> False"

datatype piece_type = PAWN | KNIGHT | BISHOP | ROOK | QUEEN | KING

record piece =
  piece_type :: piece_type
  color :: color

datatype move = Move (from_square: square) (to_square: square) (promotion: "piece_type option")

text \<open>
  A \<open>position\<close> holds the board configuration (piece placement, side to move,
  castling rights, en-passant square) and the answers the library computes from the
  configuration alone:
  \<^item> \<open>piece_map\<close>: the items of \<^verbatim>\<open>board.piece_map()\<close>, in the dictionary's order;
  \<^item> \<open>is_checkmate\<close>, \<open>is_stalemate\<close>, \<open>is_insufficient_material\<close>;
  \<^item> \<open>mobility c\<close>: \<^verbatim>\<open>len(list(b.legal_moves))\<close> on a copy \<^verbatim>\<open>b\<close> whose turn was set to \<open>c\<close>;
  \<^item> \<open>king c\<close>: \<^verbatim>\<open>board.king(c)\<close>, \<open>None\<close> when that side has no king;
  \<^item> \<open>attackers c sq\<close>: the members of the square set \<^verbatim>\<open>board.attackers(c, sq)\<close>.
\<close>

record position =
  piece_map :: "(square \<times> piece) list"
  turn :: color
  castling_rights :: "square set"
  ep_square :: "square option"
  is_checkmate :: bool
  is_stalemate :: bool
  is_insufficient_material :: bool
  mobility :: "color \<Rightarrow> nat"
  king :: "color \<Rightarrow> square option"
  attackers :: "color \<Rightarrow> square \<Rightarrow> square list"

text \<open>
  A \<open>game\<close> is a position together with the answers that also depend on how the
  position was reached (the halfmove clock and the repetition count enter
  \<^verbatim>\<open>can_claim_draw()\<close> and \<^verbatim>\<open>is_game_over()\<close>, both counters enter \<^verbatim>\<open>fen()\<close>), and,
  for every legal move in the library's enumeration order, the game after that move.
  The tree is finite, as every game of chess is: the seventy-five-move rule ends it.
\<close>

datatype game = Game
  (position: position)
  (can_claim_draw: bool)
  (is_game_over: bool)
  (fen: string)
  (replies: "(move \<times> game) list")

record board =
  game :: game
  move_stack :: "move list"

datatype py_error = IndexError


definition copy :: "board \<Rightarrow> board" where
  "copy b = b"

text \<open>\<open>push b (m, n)\<close> is the board after \<^verbatim>\<open>b.push(m)\<close>, where \<open>n\<close> is the game after \<open>m\<close>.\<close>

definition push :: "board \<Rightarrow> move \<times> game \<Rightarrow> board" where
  "push b r = \<lparr>game = snd r, move_stack = move_stack b @ [fst r]\<rparr>"

text \<open>\<^verbatim>\<open>board.peek()\<close> returns the last move of the stack and raises on an empty one.\<close>

definition peek :: "board \<Rightarrow> py_error + move" where
  "peek b = (case move_stack b of [] \<Rightarrow> Inl IndexError | _ # _ \<Rightarrow> Inr (last (move_stack b)))"

definition piece_at :: "position \<Rightarrow> square \<Rightarrow> piece option" where
  "piece_at p sq = map_of (piece_map p) sq"

section \<open>The class State\<close>

record State =
  board :: board

definition isTerminal :: "State \<Rightarrow> bool" where
  "isTerminal s = is_game_over (game (board s))"

definition moveGen :: "State \<Rightarrow> State list" where
  "moveGen s = map (\<lambda>r. \<lparr>board = push (copy (board s)) r\<rparr>) (replies (game (board s)))"



subsection \<open>evaluate\<close>

text \<open>
  Python computes the heuristic in double precision; the model computes it in the
  reals. No theorem below depends on the rounding: the terminal scores are integers,
  and of the one heuristic value that is used only its sign matters.
\<close>

definition piece_values :: "piece_type \<rightharpoonup> real" where
  "piece_values = [PAWN \<mapsto> 1, KNIGHT \<mapsto> 4, BISHOP \<mapsto> 4, ROOK \<mapsto> 6, QUEEN \<mapsto> 10, KING \<mapsto> 200]"

fun material_loop :: "(square \<times> piece) list \<Rightarrow> real \<Rightarrow> real" where
  "material_loop [] score = score"
| "material_loop ((sq, pc) # items) score =
     (let v = (case piece_values (piece_type pc) of None \<Rightarrow> 0 | Some v \<Rightarrow> v)
      in material_loop items (if color pc = WHITE then score + v else score - v))"

definition center_squares :: "square list" where
  "center_squares = [27, 28, 35, 36]"

fun center_loop :: "position \<Rightarrow> square list \<Rightarrow> real \<Rightarrow> real" where
  "center_loop p [] score = score"
| "center_loop p (sq # sqs) score =
     center_loop p sqs
       (case piece_at p sq of
          None \<Rightarrow> score
        | Some pc \<Rightarrow> if color pc = WHITE then score + 0.2 else score - 0.2)"

definition heuristic :: "position \<Rightarrow> real" where
  "heuristic p =
     (let score = 0;
          score = material_loop (piece_map p) score;
          score = center_loop p center_squares score;
          white_moves = mobility p WHITE;
          black_moves = mobility p BLACK;
          score = score + 0.05 * (real white_moves - real black_moves);
          score = (case king p WHITE of
                     None \<Rightarrow> score
                   | Some white_king_sq \<Rightarrow>
                       score - 0.5 * real (length (attackers p BLACK white_king_sq)));
          score = (case king p BLACK of
                     None \<Rightarrow> score
                   | Some black_king_sq \<Rightarrow>
                       score + 0.5 * real (length (attackers p WHITE black_king_sq)))
      in score)"

definition evaluate :: "State \<Rightarrow> real" where
  "evaluate s =
     (let g = game (board s); p = position g in
      if is_checkmate p then (if turn p = WHITE then - 10000 else 10000)
      else if is_stalemate p \<or> is_insufficient_material p \<or> can_claim_draw g then 0
      else heuristic p)"

section \<open>Example boards\<close>

text \<open>
  White: king a6, pawn a7, knight c4. Black: king a8, queen b6. White is to move and in
  check; the legal moves are Kxb6, which stalemates Black, and Nxb6, which mates.
  Both games after a reply are over with no legal move, so the tree below is the whole
  game. \<open>attackers\<close> is filled in on the two king squares, the only squares the
  program asks about.
\<close>

definition P :: "piece_type \<Rightarrow> color \<Rightarrow> piece" where
  "P t c = \<lparr>piece_type = t, color = c\<rparr>"

definition after_Kxb6 :: game where
  "after_Kxb6 = Game
     \<lparr>piece_map = [(56, P KING BLACK), (48, P PAWN WHITE), (41, P KING WHITE), (26, P KNIGHT WHITE)],
      turn = BLACK, castling_rights = {}, ep_square = None,
      is_checkmate = False, is_stalemate = True, is_insufficient_material = False,
      mobility = (\<lambda>c. if c then 13 else 0),
      king = (\<lambda>c. if c then Some 41 else Some 56),
      attackers = (\<lambda>c sq. [])\<rparr>
     False True ''k7/P7/1K6/8/2N5/8/8/8 b - - 0 80'' []"

definition after_Nxb6 :: game where
  "after_Nxb6 = Game
     \<lparr>piece_map = [(56, P KING BLACK), (48, P PAWN WHITE), (41, P KNIGHT WHITE), (40, P KING WHITE)],
      turn = BLACK, castling_rights = {}, ep_square = None,
      is_checkmate = True, is_stalemate = False, is_insufficient_material = False,
      mobility = (\<lambda>c. if c then 8 else 0),
      king = (\<lambda>c. if c then Some 40 else Some 56),
      attackers = (\<lambda>c sq. if c \<and> sq = 56 then [41] else [])\<rparr>
     False True ''k7/P7/KN6/8/8/8/8/8 b - - 0 80'' []"

definition mate_in_one_position :: position where
  "mate_in_one_position =
     \<lparr>piece_map = [(56, P KING BLACK), (48, P PAWN WHITE), (41, P QUEEN BLACK), (40, P KING WHITE),
                   (26, P KNIGHT WHITE)],
      turn = WHITE, castling_rights = {}, ep_square = None,
      is_checkmate = False, is_stalemate = False, is_insufficient_material = False,
      mobility = (\<lambda>c. if c then 2 else 23),
      king = (\<lambda>c. if c then Some 40 else Some 56),
      attackers = (\<lambda>c sq. if \<not> c \<and> sq = 40 then [41] else [])\<rparr>"

definition Kxb6 :: move where
  "Kxb6 = Move 40 41 None"

definition Nxb6 :: move where
  "Nxb6 = Move 26 41 None"

definition mate_in_one_replies :: "(move \<times> game) list" where
  "mate_in_one_replies = [(Kxb6, after_Kxb6), (Nxb6, after_Nxb6)]"

text \<open>
  The same position with three histories: three halfmoves, a hundred halfmoves (the
  fifty-move draw can be claimed, the game goes on) and a hundred and fifty halfmoves
  (the seventy-five-move rule ends the game) since the last capture or pawn move.
\<close>

definition mate_in_one :: game where
  "mate_in_one = Game mate_in_one_position False False
     ''k7/P7/Kq6/8/2N5/8/8/8 w - - 3 80'' mate_in_one_replies"


definition mate_in_one_seventyfive :: game where
  "mate_in_one_seventyfive = Game mate_in_one_position True True
     ''k7/P7/Kq6/8/2N5/8/8/8 w - - 150 80'' mate_in_one_replies"

text \<open>The mirror image of the mate: White (king a1) is mated by king a3, pawn a2, knight b3.\<close>

definition white_mated :: game where
  "white_mated = Game
     \<lparr>piece_map = [(17, P KNIGHT BLACK), (16, P KING BLACK), (8, P PAWN BLACK), (0, P KING WHITE)],
      turn = WHITE, castling_rights = {}, ep_square = None,
      is_checkmate = True, is_stalemate = False, is_insufficient_material = False,
      mobility = (\<lambda>c. if c then 0 else 8),
      king = (\<lambda>c. if c then Some 0 else Some 16),
      attackers = (\<lambda>c sq. if \<not> c \<and> sq = 0 then [17] else [])\<rparr>
     False True ''8/8/8/8/8/kn6/p7/K7 w - - 0 80'' []"

definition state_of :: "game \<Rightarrow> State" where
  "state_of g = \<lparr>board = \<lparr>game = g, move_stack = []\<rparr>\<rparr>"

section \<open>What the library guarantees\<close>

text \<open>
  The program relies on relations between the library's answers that the model's fields
  do not enforce. \<open>rules_ok\<close> states the ones used below, for one board:
  \<^item> a board has no legal move exactly when it is a checkmate or a stalemate;
  \<^item> a checkmate, a stalemate and a board with insufficient material are game over;
  \<^item> a game that is over is one of these, or ended by the seventy-five-move rule or a
    fivefold repetition, and then a draw can be claimed as well.
  \<open>rules_ok_all\<close> asks the same of every board of the tree.
\<close>

definition rules_ok :: "game \<Rightarrow> bool" where
  "rules_ok g =
     (let p = position g in
      ((is_checkmate p \<or> is_stalemate p) = (replies g = [])) \<and>
      (is_checkmate p \<or> is_stalemate p \<or> is_insufficient_material p \<longrightarrow> is_game_over g) \<and>
      (is_game_over g \<longrightarrow>
         is_checkmate p \<or> is_stalemate p \<or> is_insufficient_material p \<or> can_claim_draw g))"


section \<open>Scores\<close>

text \<open>
  A score is a Python number or one of \<^verbatim>\<open>float('-inf')\<close> and \<^verbatim>\<open>float('inf')\<close>, ordered
  as Python compares them.
\<close>

datatype score = NegInf | Fin real | PosInf

instantiation score :: linorder
begin

fun less_eq_score :: "score \<Rightarrow> score \<Rightarrow> bool" where
  "less_eq_score NegInf y = True"
| "less_eq_score (Fin x) NegInf = False"
| "less_eq_score (Fin x) (Fin y) = (x \<le> y)"
| "less_eq_score (Fin x) PosInf = True"
| "less_eq_score PosInf PosInf = True"
| "less_eq_score PosInf y = False"

definition less_score :: "score \<Rightarrow> score \<Rightarrow> bool" where
  "less_score x y = (x \<le> y \<and> \<not> y \<le> x)"

instance
proof
  fix x y z :: score
  show "(x < y) = (x \<le> y \<and> \<not> y \<le> x)"
    by (simp add: less_score_def)
  show "x \<le> x"
    by (cases x) simp_all
  show "x \<le> y \<Longrightarrow> y \<le> z \<Longrightarrow> x \<le> z"
    by (cases x; cases y; cases z) simp_all
  show "x \<le> y \<Longrightarrow> y \<le> x \<Longrightarrow> x = y"
    by (cases x; cases y) simp_all
  show "x \<le> y \<or> y \<le> x"
    by (cases x; cases y) auto
qed

end

section \<open>minimax\<close>

text \<open>The measure of the recursion: the number of boards of a game tree.\<close>

fun gsize :: "game \<Rightarrow> nat" where
  "gsize (Game p cd go f rs) = Suc (sum_list (map (\<lambda>r. Suc (gsize (snd r))) rs))"

definition loop_size :: "State list \<Rightarrow> nat" where
  "loop_size cs = sum_list (map (\<lambda>c. Suc (gsize (game (board c)))) cs)"

lemma loop_size_moveGen: "loop_size (moveGen s) < gsize (game (board s))"
  by (cases "game (board s)") (simp add: loop_size_def moveGen_def push_def copy_def comp_def)

text \<open>
  The two \<^verbatim>\<open>for\<close> loops of \<^verbatim>\<open>minimax\<close> are \<open>max_loop\<close> and \<open>min_loop\<close>: they take the
  children still to visit and the loop's variables, \<open>alpha\<close> (or \<open>beta\<close>), the best score
  and the best move so far. A \<^verbatim>\<open>break\<close> returns without visiting the rest.
\<close>

function minimax :: "State \<Rightarrow> int \<Rightarrow> score \<Rightarrow> score \<Rightarrow> bool \<Rightarrow> int
                       \<Rightarrow> py_error + (score \<times> move option)"
  and max_loop :: "State list \<Rightarrow> int \<Rightarrow> score \<Rightarrow> score \<Rightarrow> int \<Rightarrow> score \<Rightarrow> move option
                     \<Rightarrow> py_error + (score \<times> move option)"
  and min_loop :: "State list \<Rightarrow> int \<Rightarrow> score \<Rightarrow> score \<Rightarrow> int \<Rightarrow> score \<Rightarrow> move option
                     \<Rightarrow> py_error + (score \<times> move option)"
where
  "minimax state depth alpha beta maximizingPlayer maxDepth =
     (if isTerminal state \<or> depth = maxDepth then Inr (Fin (evaluate state), None)
      else if maximizingPlayer
        then max_loop (moveGen state) depth alpha beta maxDepth NegInf None
        else min_loop (moveGen state) depth alpha beta maxDepth PosInf None)"
| "max_loop [] depth alpha beta maxDepth maxEval best_move = Inr (maxEval, best_move)"
| "max_loop (child # children) depth alpha beta maxDepth maxEval best_move =
     (case minimax child (depth + 1) alpha beta False maxDepth of
        Inl e \<Rightarrow> Inl e
      | Inr (eval_score, _) \<Rightarrow>
          (case (if eval_score > maxEval
                 then map_sum id (\<lambda>m. (eval_score, Some m)) (peek (board child))
                 else Inr (maxEval, best_move)) of
             Inl e \<Rightarrow> Inl e
           | Inr (maxEval', best_move') \<Rightarrow>
               (let alpha' = max alpha eval_score
                in if alpha' \<ge> beta then Inr (maxEval', best_move')
                   else max_loop children depth alpha' beta maxDepth maxEval' best_move')))"
| "min_loop [] depth alpha beta maxDepth minEval best_move = Inr (minEval, best_move)"
| "min_loop (child # children) depth alpha beta maxDepth minEval best_move =
     (case minimax child (depth + 1) alpha beta True maxDepth of
        Inl e \<Rightarrow> Inl e
      | Inr (eval_score, _) \<Rightarrow>
          (case (if eval_score < minEval
                 then map_sum id (\<lambda>m. (eval_score, Some m)) (peek (board child))
                 else Inr (minEval, best_move)) of
             Inl e \<Rightarrow> Inl e
           | Inr (minEval', best_move') \<Rightarrow>
               (let beta' = min beta eval_score
                in if alpha \<ge> beta' then Inr (minEval', best_move')
                   else min_loop children depth alpha beta' maxDepth minEval' best_move')))"
  by pat_completeness auto
termination
  by (relation "measure (\<lambda>x. case x of
        Inl (s, _) \<Rightarrow> gsize (game (board s))
      | Inr (Inl (cs, _)) \<Rightarrow> loop_size cs
      | Inr (Inr (cs, _)) \<Rightarrow> loop_size cs)")
    (simp_all add: loop_size_def loop_size_moveGen [unfolded loop_size_def])

declare minimax.simps [simp del]

subsection \<open>The search without pruning\<close>

text \<open>
  The full minimax the pruned search is compared with: \<^verbatim>\<open>minimax\<close> with \<open>alpha\<close> and
  \<open>beta\<close> never updated and the \<^verbatim>\<open>break\<close> removed, so that neither bound is read any more.
  Only the score is kept.
\<close>

function minimax_full :: "State \<Rightarrow> int \<Rightarrow> bool \<Rightarrow> int \<Rightarrow> score"
  and full_max_loop :: "State list \<Rightarrow> int \<Rightarrow> int \<Rightarrow> score \<Rightarrow> score"
  and full_min_loop :: "State list \<Rightarrow> int \<Rightarrow> int \<Rightarrow> score \<Rightarrow> score"
where
  "minimax_full state depth maximizingPlayer maxDepth =
     (if isTerminal state \<or> depth = maxDepth then Fin (evaluate state)
      else if maximizingPlayer
        then full_max_loop (moveGen state) depth maxDepth NegInf
        else full_min_loop (moveGen state) depth maxDepth PosInf)"
| "full_max_loop [] depth maxDepth maxEval = maxEval"
| "full_max_loop (child # children) depth maxDepth maxEval =
     (let eval_score = minimax_full child (depth + 1) False maxDepth
      in full_max_loop children depth maxDepth
           (if eval_score > maxEval then eval_score else maxEval))"
| "full_min_loop [] depth maxDepth minEval = minEval"
| "full_min_loop (child # children) depth maxDepth minEval =
     (let eval_score = minimax_full child (depth + 1) True maxDepth
      in full_min_loop children depth maxDepth
           (if eval_score < minEval then eval_score else minEval))"
  by pat_completeness auto
termination
  by (relation "measure (\<lambda>x. case x of
        Inl (s, _) \<Rightarrow> gsize (game (board s))
      | Inr (Inl (cs, _)) \<Rightarrow> loop_size cs
      | Inr (Inr (cs, _)) \<Rightarrow> loop_size cs)")
    (simp_all add: loop_size_def loop_size_moveGen [unfolded loop_size_def])

declare minimax_full.simps [simp del]

subsection \<open>The search with its visits recorded, under either rule for the bound\<close>

text \<open>
  \<open>minimax_traced\<close> is \<^verbatim>\<open>minimax\<close> returning, besides its result, the states it was
  called on, in the order of the calls. Its first argument chooses how a loop advances
  its bound: \<open>ChildScore\<close> is the program's rule (\<^verbatim>\<open>alpha = max(alpha, eval_score)\<close>),
  \<open>RunningBest\<close> the rule of the textbook (\<^verbatim>\<open>alpha = max(alpha, maxEval)\<close>).
\<close>

datatype bound_rule = ChildScore | RunningBest

function minimax_traced :: "bound_rule \<Rightarrow> State \<Rightarrow> int \<Rightarrow> score \<Rightarrow> score \<Rightarrow> bool \<Rightarrow> int
                              \<Rightarrow> py_error + (score \<times> move option \<times> State list)"
  and max_loop_traced :: "bound_rule \<Rightarrow> State list \<Rightarrow> int \<Rightarrow> score \<Rightarrow> score \<Rightarrow> int \<Rightarrow> score
                            \<Rightarrow> move option \<Rightarrow> py_error + (score \<times> move option \<times> State list)"
  and min_loop_traced :: "bound_rule \<Rightarrow> State list \<Rightarrow> int \<Rightarrow> score \<Rightarrow> score \<Rightarrow> int \<Rightarrow> score
                            \<Rightarrow> move option \<Rightarrow> py_error + (score \<times> move option \<times> State list)"
where
  "minimax_traced rule state depth alpha beta maximizingPlayer maxDepth =
     (if isTerminal state \<or> depth = maxDepth then Inr (Fin (evaluate state), None, [state])
      else
        (case (if maximizingPlayer
               then max_loop_traced rule (moveGen state) depth alpha beta maxDepth NegInf None
               else min_loop_traced rule (moveGen state) depth alpha beta maxDepth PosInf None) of
           Inl e \<Rightarrow> Inl e
         | Inr (best, best_move, visited) \<Rightarrow> Inr (best, best_move, state # visited)))"
| "max_loop_traced rule [] depth alpha beta maxDepth maxEval best_move =
     Inr (maxEval, best_move, [])"
| "max_loop_traced rule (child # children) depth alpha beta maxDepth maxEval best_move =
     (case minimax_traced rule child (depth + 1) alpha beta False maxDepth of
        Inl e \<Rightarrow> Inl e
      | Inr (eval_score, _, visited) \<Rightarrow>
          (case (if eval_score > maxEval
                 then map_sum id (\<lambda>m. (eval_score, Some m)) (peek (board child))
                 else Inr (maxEval, best_move)) of
             Inl e \<Rightarrow> Inl e
           | Inr (maxEval', best_move') \<Rightarrow>
               (let alpha' = (case rule of
                                ChildScore \<Rightarrow> max alpha eval_score
                              | RunningBest \<Rightarrow> max alpha maxEval')
                in if alpha' \<ge> beta then Inr (maxEval', best_move', visited)
                   else
                     (case max_loop_traced rule children depth alpha' beta maxDepth
                             maxEval' best_move' of
                        Inl e \<Rightarrow> Inl e
                      | Inr (best, move, later) \<Rightarrow> Inr (best, move, visited @ later)))))"
| "min_loop_traced rule [] depth alpha beta maxDepth minEval best_move =
     Inr (minEval, best_move, [])"
| "min_loop_traced rule (child # children) depth alpha beta maxDepth minEval best_move =
     (case minimax_traced rule child (depth + 1) alpha beta True maxDepth of
        Inl e \<Rightarrow> Inl e
      | Inr (eval_score, _, visited) \<Rightarrow>
          (case (if eval_score < minEval
                 then map_sum id (\<lambda>m. (eval_score, Some m)) (peek (board child))
                 else Inr (minEval, best_move)) of
             Inl e \<Rightarrow> Inl e
           | Inr (minEval', best_move') \<Rightarrow>
               (let beta' = (case rule of
                               ChildScore \<Rightarrow> min beta eval_score
                             | RunningBest \<Rightarrow> min beta minEval')
                in if alpha \<ge> beta' then Inr (minEval', best_move', visited)
                   else
                     (case min_loop_traced rule children depth alpha beta' maxDepth
                             minEval' best_move' of
                        Inl e \<Rightarrow> Inl e
                      | Inr (best, move, later) \<Rightarrow> Inr (best, move, visited @ later)))))"
  by pat_completeness auto
termination
  by (relation "measure (\<lambda>x. case x of
        Inl (_, s, _) \<Rightarrow> gsize (game (board s))
      | Inr (Inl (_, cs, _)) \<Rightarrow> loop_size cs
      | Inr (Inr (_, cs, _)) \<Rightarrow> loop_size cs)")
    (simp_all add: loop_size_def loop_size_moveGen [unfolded loop_size_def])

declare minimax_traced.simps [simp del]

subsection \<open>Notions used to compare the searches\<close>

text \<open>
  \<open>bounds alpha beta exact v\<close>: a score \<open>v\<close> returned for the window from \<open>alpha\<close> to
  \<open>beta\<close> is at least the exact score when it is below \<open>beta\<close>, and at most the exact
  score when it is above \<open>alpha\<close>. \<open>untraced\<close> forgets the recorded visits.
\<close>

definition bounds :: "score \<Rightarrow> score \<Rightarrow> score \<Rightarrow> score \<Rightarrow> bool" where
  "bounds alpha beta exact v = ((v < beta \<longrightarrow> exact \<le> v) \<and> (alpha < v \<longrightarrow> v \<le> exact))"

definition untraced :: "py_error + (score \<times> move option \<times> State list)
    \<Rightarrow> py_error + (score \<times> move option)" where
  "untraced r = map_sum id (\<lambda>(v, m, t). (v, m)) r"

section \<open>Scores of finished games\<close>

text \<open>
  C1. \<open>evaluate\<close> of a finished game depends only on how it finished: it is -10000 when
  the side to move is White and is checkmated, +10000 when the side to move is Black and
  is checkmated, and 0 for a game that is not a checkmate and is a stalemate, has
  insufficient material or can be claimed as a draw. Under the library's rules every
  terminal state is of one of these kinds, so its score is one of the three values.
\<close>

theorem evaluate_terminal:
  "(is_checkmate (position (game (board s))) \<and> turn (position (game (board s))) = WHITE
      \<longrightarrow> evaluate s = - 10000) \<and>
   (is_checkmate (position (game (board s))) \<and> turn (position (game (board s))) = BLACK
      \<longrightarrow> evaluate s = 10000) \<and>
   (\<not> is_checkmate (position (game (board s))) \<and>
      (is_stalemate (position (game (board s))) \<or>
       is_insufficient_material (position (game (board s))) \<or>
       can_claim_draw (game (board s)))
      \<longrightarrow> evaluate s = 0) \<and>
   (isTerminal s \<and> rules_ok (game (board s)) \<longrightarrow>
      evaluate s =
        (if is_checkmate (position (game (board s)))
         then (if turn (position (game (board s))) = WHITE then - 10000 else 10000)
         else 0))"
  by (auto simp add: evaluate_def isTerminal_def rules_ok_def Let_def)

theorem evaluate_terminal_witness:
  "isTerminal (state_of white_mated) \<and> rules_ok (game (board (state_of white_mated))) \<and>
   evaluate (state_of white_mated) = - 10000 \<and>
   isTerminal (state_of after_Nxb6) \<and> rules_ok (game (board (state_of after_Nxb6))) \<and>
   evaluate (state_of after_Nxb6) = 10000 \<and>
   isTerminal (state_of after_Kxb6) \<and> rules_ok (game (board (state_of after_Kxb6))) \<and>
   evaluate (state_of after_Kxb6) = 0 \<and>
   isTerminal (state_of mate_in_one_seventyfive) \<and>
   rules_ok (game (board (state_of mate_in_one_seventyfive))) \<and>
   evaluate (state_of mate_in_one_seventyfive) = 0"
  using evaluate_terminal [of "state_of white_mated"]
    evaluate_terminal [of "state_of after_Nxb6"]
    evaluate_terminal [of "state_of after_Kxb6"]
    evaluate_terminal [of "state_of mate_in_one_seventyfive"]
  by (simp add: state_of_def white_mated_def after_Nxb6_def after_Kxb6_def
      mate_in_one_seventyfive_def mate_in_one_position_def mate_in_one_replies_def
      isTerminal_def rules_ok_def)

section \<open>The base case of the search\<close>

text \<open>
  C9. Whatever the bounds and the side, \<open>minimax\<close> on a state that is terminal, or at
  a depth equal to \<open>maxDepth\<close>, returns the state's evaluation and no move; so does a
  search from depth 0 with \<open>maxDepth\<close> 0, on any state.
\<close>

theorem minimax_base_case:
  "(isTerminal state \<or> depth = maxDepth \<longrightarrow>
      minimax state depth alpha beta maximizingPlayer maxDepth
        = Inr (Fin (evaluate state), None)) \<and>
   minimax state 0 alpha beta maximizingPlayer 0 = Inr (Fin (evaluate state), None)"
  by (simp add: minimax.simps)

theorem minimax_base_case_witness:
  "isTerminal (state_of after_Nxb6) \<and>
   minimax (state_of after_Nxb6) 0 NegInf PosInf False 3 = Inr (Fin 10000, None) \<and>
   \<not> isTerminal (state_of mate_in_one) \<and>
   minimax (state_of mate_in_one) 0 NegInf PosInf True 0 = Inr (Fin (- 6.55), None)"
  using minimax_base_case [of "state_of after_Nxb6" 0 3 NegInf PosInf False]
    minimax_base_case [of "state_of mate_in_one" 0 0 NegInf PosInf True]
  by (simp add: isTerminal_def state_of_def after_Nxb6_def mate_in_one_def
      mate_in_one_position_def evaluate_def heuristic_def center_squares_def piece_at_def
      piece_values_def P_def)

section \<open>Terminal states and successors\<close>







section \<open>Identity of states\<close>




section \<open>What evaluate depends on\<close>




section \<open>Lemmas about the loops\<close>

lemma moveGen_child:
  assumes "c \<in> set (moveGen s)"
  shows "gsize (game (board c)) < gsize (game (board s))"
    and "move_stack (board c) \<noteq> []"
proof -
  from assms obtain r where r: "r \<in> set (replies (game (board s)))"
    and c: "c = \<lparr>board = push (copy (board s)) r\<rparr>"
    by (auto simp add: moveGen_def)
  have "Suc (gsize (snd r)) \<le> sum_list (map (\<lambda>r. Suc (gsize (snd r))) (replies (game (board s))))"
    using r by (simp add: member_le_sum_list)
  then show "gsize (game (board c)) < gsize (game (board s))"
    using c by (cases "game (board s)") (simp add: push_def)
  show "move_stack (board c) \<noteq> []"
    using c by (simp add: push_def)
qed

lemma peek_nonempty: "move_stack b \<noteq> [] \<Longrightarrow> peek b = Inr (last (move_stack b))"
  by (cases "move_stack b") (simp_all add: peek_def)

lemma max_loop_step:
  assumes "minimax child (depth + 1) alpha beta False maxDepth = Inr (e, x)"
    and "move_stack (board child) \<noteq> []"
  shows "max_loop (child # children) depth alpha beta maxDepth maxEval best_move =
     (if max alpha e \<ge> beta
      then Inr (if e > maxEval then (e, Some (last (move_stack (board child)))) else (maxEval, best_move))
      else max_loop children depth (max alpha e) beta maxDepth
             (if e > maxEval then e else maxEval)
             (if e > maxEval then Some (last (move_stack (board child))) else best_move))"
  using assms by (simp add: peek_nonempty Let_def)

lemma min_loop_step:
  assumes "minimax child (depth + 1) alpha beta True maxDepth = Inr (e, x)"
    and "move_stack (board child) \<noteq> []"
  shows "min_loop (child # children) depth alpha beta maxDepth minEval best_move =
     (if alpha \<ge> min beta e
      then Inr (if e < minEval then (e, Some (last (move_stack (board child)))) else (minEval, best_move))
      else min_loop children depth alpha (min beta e) maxDepth
             (if e < minEval then e else minEval)
             (if e < minEval then Some (last (move_stack (board child))) else best_move))"
  using assms by (simp add: peek_nonempty Let_def)

lemma score_order [simp]:
  "NegInf \<le> x" "x \<le> PosInf"
  "(x \<le> NegInf) = (x = NegInf)" "(PosInf \<le> x) = (x = PosInf)"
  "(Fin a < Fin b) = (a < b)"
  "(NegInf < x) = (x \<noteq> NegInf)" "(x < PosInf) = (x \<noteq> PosInf)"
  "\<not> x < NegInf" "\<not> PosInf < x"
  by (cases x; auto simp add: less_score_def)+

section \<open>Pruning does not change the score\<close>

lemma if_less_max: "(if (acc::score) < e then e else acc) = max acc e"
  by (auto simp add: max_def)

lemma if_less_min: "(if (e::score) < acc then e else acc) = min acc e"
  by (auto simp add: min_def)

lemma full_max_loop_acc:
  "full_max_loop cs d md acc = max acc (full_max_loop cs d md NegInf)"
proof (induction cs arbitrary: acc)
  case Nil
  show ?case by (simp add: max_def)
next
  case (Cons c cs)
  define e where "e = minimax_full c (d + 1) False md"
  have "full_max_loop (c # cs) d md acc = full_max_loop cs d md (max acc e)"
    by (simp only: full_max_loop.simps Let_def if_less_max e_def)
  also have "\<dots> = max (max acc e) (full_max_loop cs d md NegInf)"
    by (rule Cons.IH)
  finally have 1: "full_max_loop (c # cs) d md acc = max (max acc e) (full_max_loop cs d md NegInf)" .
  have "full_max_loop (c # cs) d md NegInf = full_max_loop cs d md (max NegInf e)"
    by (simp only: full_max_loop.simps Let_def if_less_max e_def)
  also have "\<dots> = max (max NegInf e) (full_max_loop cs d md NegInf)"
    by (rule Cons.IH)
  also have "max NegInf e = e"
    by (simp add: max_def)
  finally have 2: "full_max_loop (c # cs) d md NegInf = max e (full_max_loop cs d md NegInf)" .
  show ?case
    unfolding 1 2 by (simp only: max.assoc)
qed

lemma full_max_loop_Cons:
  "full_max_loop (c # cs) d md NegInf
     = max (minimax_full c (d + 1) False md) (full_max_loop cs d md NegInf)"
proof -
  have "full_max_loop (c # cs) d md NegInf
      = full_max_loop cs d md (max NegInf (minimax_full c (d + 1) False md))"
    by (simp only: full_max_loop.simps Let_def if_less_max)
  also have "max NegInf (minimax_full c (d + 1) False md) = minimax_full c (d + 1) False md"
    by (simp add: max_def)
  finally show ?thesis
    by (simp only: full_max_loop_acc [of cs d md "minimax_full c (d + 1) False md"])
qed

lemma full_min_loop_acc:
  "full_min_loop cs d md acc = min acc (full_min_loop cs d md PosInf)"
proof (induction cs arbitrary: acc)
  case Nil
  show ?case by (simp add: min_def)
next
  case (Cons c cs)
  define e where "e = minimax_full c (d + 1) True md"
  have "full_min_loop (c # cs) d md acc = full_min_loop cs d md (min acc e)"
    by (simp only: full_min_loop.simps Let_def if_less_min e_def)
  also have "\<dots> = min (min acc e) (full_min_loop cs d md PosInf)"
    by (rule Cons.IH)
  finally have 1: "full_min_loop (c # cs) d md acc = min (min acc e) (full_min_loop cs d md PosInf)" .
  have "full_min_loop (c # cs) d md PosInf = full_min_loop cs d md (min PosInf e)"
    by (simp only: full_min_loop.simps Let_def if_less_min e_def)
  also have "\<dots> = min (min PosInf e) (full_min_loop cs d md PosInf)"
    by (rule Cons.IH)
  also have "min PosInf e = e"
    by (simp add: min_def)
  finally have 2: "full_min_loop (c # cs) d md PosInf = min e (full_min_loop cs d md PosInf)" .
  show ?case
    unfolding 1 2 by (simp only: min.assoc)
qed

lemma full_min_loop_Cons:
  "full_min_loop (c # cs) d md PosInf
     = min (minimax_full c (d + 1) True md) (full_min_loop cs d md PosInf)"
proof -
  have "full_min_loop (c # cs) d md PosInf
      = full_min_loop cs d md (min PosInf (minimax_full c (d + 1) True md))"
    by (simp only: full_min_loop.simps Let_def if_less_min)
  also have "min PosInf (minimax_full c (d + 1) True md) = minimax_full c (d + 1) True md"
    by (simp add: min_def)
  finally show ?thesis
    by (simp only: full_min_loop_acc [of cs d md "minimax_full c (d + 1) True md"])
qed

lemma max_loop_bounds:
  assumes kids: "\<And>c a b. c \<in> set cs \<Longrightarrow> a < b \<Longrightarrow>
      \<exists>v m. minimax c (d + 1) a b False md = Inr (v, m) \<and>
        bounds a b (minimax_full c (d + 1) False md) v"
    and stacks: "\<And>c. c \<in> set cs \<Longrightarrow> move_stack (board c) \<noteq> []"
    and "a < b" and "acc \<le> a"
  shows "\<exists>v m. max_loop cs d a b md acc bm = Inr (v, m) \<and> acc \<le> v \<and>
           bounds a b (full_max_loop cs d md NegInf) v"
  using assms
proof (induction cs arbitrary: a acc bm)
  case Nil
  then show ?case by (auto simp add: bounds_def dest: leD)
next
  case (Cons c cs)
  define Fc where "Fc = minimax_full c (d + 1) False md"
  define rest where "rest = full_max_loop cs d md NegInf"
  from Cons.prems(1) [of c a b] \<open>a < b\<close>
  obtain e x where e: "minimax c (d + 1) a b False md = Inr (e, x)"
    and be: "bounds a b Fc e"
    by (auto simp add: Fc_def)
  have stack: "move_stack (board c) \<noteq> []"
    by (simp add: Cons.prems(2))
  note step = max_loop_step [OF e stack, of cs acc bm]
  have full: "full_max_loop (c # cs) d md NegInf = max Fc rest"
    by (simp only: full_max_loop_Cons Fc_def rest_def)
  show ?case
  proof (cases "b \<le> max a e")
    case True
    with \<open>a < b\<close> \<open>acc \<le> a\<close> have "b \<le> e" "a < e" "acc < e"
      by (auto simp add: max_def split: if_splits)
    with True be show ?thesis
      unfolding step full by (auto simp add: bounds_def max_def)
  next
    case False
    then have ab': "max a e < b" by (simp only: not_le)
    have acc': "(if acc < e then e else acc) \<le> max a e"
      using \<open>acc \<le> a\<close> by (auto simp add: max_def)
    from Cons.IH [OF _ _ ab' acc', of "if acc < e then Some (last (move_stack (board c))) else bm"]
      Cons.prems(1,2)
    obtain v m where v: "max_loop cs d (max a e) b md (if acc < e then e else acc)
          (if acc < e then Some (last (move_stack (board c))) else bm) = Inr (v, m)"
      and lo: "(if acc < e then e else acc) \<le> v"
      and bv: "bounds (max a e) b rest v"
      by (auto simp add: rest_def)
    have "acc \<le> v" using lo by (auto split: if_splits)
    moreover have "e \<le> v" using lo by (auto split: if_splits)
    moreover have "e < b" using ab' by simp
    ultimately have "acc \<le> v \<and> bounds a b (max Fc rest) v"
      using be bv unfolding bounds_def
      by (auto simp add: max_def split: if_splits)
    with False v show ?thesis
      unfolding step full by simp
  qed
qed

lemma min_loop_bounds:
  assumes kids: "\<And>c a b. c \<in> set cs \<Longrightarrow> a < b \<Longrightarrow>
      \<exists>v m. minimax c (d + 1) a b True md = Inr (v, m) \<and>
        bounds a b (minimax_full c (d + 1) True md) v"
    and stacks: "\<And>c. c \<in> set cs \<Longrightarrow> move_stack (board c) \<noteq> []"
    and "a < b" and "b \<le> acc"
  shows "\<exists>v m. min_loop cs d a b md acc bm = Inr (v, m) \<and> v \<le> acc \<and>
           bounds a b (full_min_loop cs d md PosInf) v"
  using assms
proof (induction cs arbitrary: b acc bm)
  case Nil
  then show ?case by (auto simp add: bounds_def dest: leD)
next
  case (Cons c cs)
  define Fc where "Fc = minimax_full c (d + 1) True md"
  define rest where "rest = full_min_loop cs d md PosInf"
  from Cons.prems(1) [of c a b] \<open>a < b\<close>
  obtain e x where e: "minimax c (d + 1) a b True md = Inr (e, x)"
    and be: "bounds a b Fc e"
    by (auto simp add: Fc_def)
  have stack: "move_stack (board c) \<noteq> []"
    by (simp add: Cons.prems(2))
  note step = min_loop_step [OF e stack, of cs acc bm]
  have full: "full_min_loop (c # cs) d md PosInf = min Fc rest"
    by (simp only: full_min_loop_Cons Fc_def rest_def)
  show ?case
  proof (cases "min b e \<le> a")
    case True
    with \<open>a < b\<close> \<open>b \<le> acc\<close> have "e \<le> a" "e < b" "e < acc"
      by (auto simp add: min_def split: if_splits)
    with True be show ?thesis
      unfolding step full by (auto simp add: bounds_def min_def)
  next
    case False
    then have ab': "a < min b e" by (simp only: not_le)
    have acc': "min b e \<le> (if e < acc then e else acc)"
      using \<open>b \<le> acc\<close> by (auto simp add: min_def)
    from Cons.IH [OF _ _ ab' acc', of "if e < acc then Some (last (move_stack (board c))) else bm"]
      Cons.prems(1,2)
    obtain v m where v: "min_loop cs d a (min b e) md (if e < acc then e else acc)
          (if e < acc then Some (last (move_stack (board c))) else bm) = Inr (v, m)"
      and hi: "v \<le> (if e < acc then e else acc)"
      and bv: "bounds a (min b e) rest v"
      by (auto simp add: rest_def)
    have "v \<le> acc" using hi by (auto split: if_splits)
    moreover have "v \<le> e" using hi by (auto split: if_splits)
    moreover have "a < e" using ab' by simp
    ultimately have "v \<le> acc \<and> bounds a b (min Fc rest) v"
      using be bv unfolding bounds_def
      by (auto simp add: min_def split: if_splits)
    with False v show ?thesis
      unfolding step full by simp
  qed
qed

lemma minimax_bounds:
  "a < b \<Longrightarrow> \<exists>v m. minimax s d a b mx md = Inr (v, m) \<and> bounds a b (minimax_full s d mx md) v"
proof (induction "gsize (game (board s))" arbitrary: s d a b mx rule: less_induct)
  case less
  show ?case
  proof (cases "isTerminal s \<or> d = md")
    case True
    then show ?thesis
      by (simp add: minimax.simps minimax_full.simps bounds_def)
  next
    case False
    have kids: "\<exists>v m. minimax c (d + 1) a' b' mx' md = Inr (v, m) \<and>
        bounds a' b' (minimax_full c (d + 1) mx' md) v"
      if "c \<in> set (moveGen s)" "a' < b'" for c a' b' mx'
      using less.hyps [OF moveGen_child(1) [OF that(1)] that(2)] .
    show ?thesis
    proof (cases mx)
      case True
      from max_loop_bounds [of "moveGen s" d md a b NegInf None, OF kids moveGen_child(2) \<open>a < b\<close>]
      show ?thesis
        using False True by (auto simp add: minimax.simps minimax_full.simps)
    next
      case mn: False
      from min_loop_bounds [of "moveGen s" d md a b PosInf None, OF kids moveGen_child(2) \<open>a < b\<close>]
      show ?thesis
        using False mn by (auto simp add: minimax.simps minimax_full.simps)
    qed
  qed
qed

lemma bounds_full_window: "bounds NegInf PosInf exact v \<Longrightarrow> v = exact"
  by (cases v; cases exact) (auto simp add: bounds_def)

lemma minimax_full_score:
  "\<exists>m. minimax s d NegInf PosInf mx md = Inr (minimax_full s d mx md, m)"
proof -
  have "NegInf < PosInf" by simp
  from minimax_bounds [OF this, of s d mx md] show ?thesis
    by (auto dest: bounds_full_window)
qed

text \<open>
  C2. For every state, depth, side and \<open>maxDepth\<close>, the search started with the bounds
  \<^verbatim>\<open>float('-inf')\<close> and \<^verbatim>\<open>float('inf')\<close> returns, and its score is the score of the full
  minimax that never prunes.
\<close>

theorem pruning_preserves_score:
  "\<exists>m. minimax state depth NegInf PosInf maximizingPlayer maxDepth
         = Inr (minimax_full state depth maximizingPlayer maxDepth, m)"
  by (rule minimax_full_score)

theorem pruning_preserves_score_witness:
  "minimax_full (state_of mate_in_one) 0 True 3 = Fin 10000 \<and>
   (\<exists>m. minimax (state_of mate_in_one) 0 NegInf PosInf True 3 = Inr (Fin 10000, m))"
  using pruning_preserves_score [of "state_of mate_in_one" 0 True 3]
  by (simp add: minimax_full.simps state_of_def mate_in_one_def mate_in_one_replies_def
      moveGen_def isTerminal_def push_def copy_def after_Kxb6_def after_Nxb6_def evaluate_def
      less_score_def)

section \<open>The two rules for the bound\<close>

lemma max_bound_rule: "(acc::score) \<le> a \<Longrightarrow> max a (if acc < e then e else acc) = max a e"
  by (auto simp add: max_def)

lemma min_bound_rule: "(b::score) \<le> acc \<Longrightarrow> min b (if e < acc then e else acc) = min b e"
  by (auto simp add: min_def)

lemma max_loop_traced_rule:
  assumes kids: "\<And>c a b. c \<in> set cs \<Longrightarrow>
      minimax_traced RunningBest c (d + 1) a b False md
        = minimax_traced ChildScore c (d + 1) a b False md"
    and "acc \<le> a"
  shows "max_loop_traced RunningBest cs d a b md acc bm
           = max_loop_traced ChildScore cs d a b md acc bm"
  using assms
proof (induction cs arbitrary: a acc bm)
  case Nil
  show ?case by simp
next
  case (Cons c cs)
  have child: "minimax_traced RunningBest c (d + 1) a b False md
      = minimax_traced ChildScore c (d + 1) a b False md"
    by (rule Cons.prems(1)) simp
  show ?case
  proof (cases "minimax_traced ChildScore c (d + 1) a b False md")
    case (Inl err)
    with child show ?thesis by simp
  next
    case (Inr r)
    obtain e x t where r: "r = (e, x, t)" by (cases r)
    have IH: "max_loop_traced RunningBest cs d (max a e) b md acc' bm'
        = max_loop_traced ChildScore cs d (max a e) b md acc' bm'"
      if "acc' \<le> max a e" for acc' bm'
      using Cons.prems(1) that by (intro Cons.IH) auto
    have le: "acc \<le> max a e"
      using \<open>acc \<le> a\<close> by (simp add: max.coboundedI1)
    show ?thesis
    proof (cases "acc < e")
      case True
      show ?thesis
      proof (cases "peek (board c)")
        case (Inl err)
        with True Inr r child show ?thesis by simp
      next
        case mv: (Inr m)
        have "max a e = max a e" ..
        with True Inr r child mv IH [of e "Some m"] max_bound_rule [OF \<open>acc \<le> a\<close>, of e]
        show ?thesis by (simp add: Let_def)
      qed
    next
      case False
      with Inr r child IH [of acc bm] le max_bound_rule [OF \<open>acc \<le> a\<close>, of e]
      show ?thesis by (simp add: Let_def)
    qed
  qed
qed

lemma min_loop_traced_rule:
  assumes kids: "\<And>c a b. c \<in> set cs \<Longrightarrow>
      minimax_traced RunningBest c (d + 1) a b True md
        = minimax_traced ChildScore c (d + 1) a b True md"
    and "b \<le> acc"
  shows "min_loop_traced RunningBest cs d a b md acc bm
           = min_loop_traced ChildScore cs d a b md acc bm"
  using assms
proof (induction cs arbitrary: b acc bm)
  case Nil
  show ?case by simp
next
  case (Cons c cs)
  have child: "minimax_traced RunningBest c (d + 1) a b True md
      = minimax_traced ChildScore c (d + 1) a b True md"
    by (rule Cons.prems(1)) simp
  show ?case
  proof (cases "minimax_traced ChildScore c (d + 1) a b True md")
    case (Inl err)
    with child show ?thesis by simp
  next
    case (Inr r)
    obtain e x t where r: "r = (e, x, t)" by (cases r)
    have IH: "min_loop_traced RunningBest cs d a (min b e) md acc' bm'
        = min_loop_traced ChildScore cs d a (min b e) md acc' bm'"
      if "min b e \<le> acc'" for acc' bm'
      using Cons.prems(1) that by (intro Cons.IH) auto
    have le: "min b e \<le> acc"
      using \<open>b \<le> acc\<close> by (simp add: min.coboundedI1)
    show ?thesis
    proof (cases "e < acc")
      case True
      show ?thesis
      proof (cases "peek (board c)")
        case (Inl err)
        with True Inr r child show ?thesis by simp
      next
        case mv: (Inr m)
        with True Inr r child IH [of e "Some m"] min_bound_rule [OF \<open>b \<le> acc\<close>, of e]
        show ?thesis by (simp add: Let_def)
      qed
    next
      case False
      with Inr r child IH [of acc bm] le min_bound_rule [OF \<open>b \<le> acc\<close>, of e]
      show ?thesis by (simp add: Let_def)
    qed
  qed
qed

lemma minimax_traced_rule:
  "minimax_traced RunningBest s d a b mx md = minimax_traced ChildScore s d a b mx md"
proof (induction "gsize (game (board s))" arbitrary: s d a b mx rule: less_induct)
  case less
  have kids: "minimax_traced RunningBest c (d + 1) a' b' mx' md
      = minimax_traced ChildScore c (d + 1) a' b' mx' md"
    if "c \<in> set (moveGen s)" for c a' b' mx'
    using less.hyps [OF moveGen_child(1) [OF that]] .
  have "max_loop_traced RunningBest (moveGen s) d a b md NegInf None
      = max_loop_traced ChildScore (moveGen s) d a b md NegInf None"
    by (rule max_loop_traced_rule [OF kids]) simp_all
  moreover have "min_loop_traced RunningBest (moveGen s) d a b md PosInf None
      = min_loop_traced ChildScore (moveGen s) d a b md PosInf None"
    by (rule min_loop_traced_rule [OF kids]) simp_all
  ultimately show ?case
    by (simp add: minimax_traced.simps)
qed

lemma max_loop_untraced:
  assumes kids: "\<And>c a b. c \<in> set cs \<Longrightarrow>
      untraced (minimax_traced ChildScore c (d + 1) a b False md)
        = minimax c (d + 1) a b False md"
  shows "untraced (max_loop_traced ChildScore cs d a b md acc bm)
           = max_loop cs d a b md acc bm"
  using assms
proof (induction cs arbitrary: a acc bm)
  case Nil
  show ?case by (simp add: untraced_def)
next
  case (Cons c cs)
  have child: "untraced (minimax_traced ChildScore c (d + 1) a b False md)
      = minimax c (d + 1) a b False md"
    by (rule Cons.prems(1)) simp
  have IH: "untraced (max_loop_traced ChildScore cs d a' b md acc' bm')
      = max_loop cs d a' b md acc' bm'" for a' acc' bm'
    using Cons.prems(1) by (intro Cons.IH) auto
  show ?case
  proof (cases "minimax_traced ChildScore c (d + 1) a b False md")
    case (Inl err)
    with child [symmetric] show ?thesis by (simp add: untraced_def)
  next
    case (Inr r)
    obtain e x t where r: "r = (e, x, t)" by (cases r)
    have m: "minimax c (d + 1) a b False md = Inr (e, x)"
      using child Inr r by (simp add: untraced_def)
    show ?thesis
    proof (cases "if acc < e then map_sum id (\<lambda>m. (e, Some m)) (peek (board c))
                  else Inr (acc, bm)")
      case (Inl err)
      with Inr r m show ?thesis by (simp add: untraced_def)
    next
      case R: (Inr q)
      obtain acc' bm' where q: "q = (acc', bm')" by (cases q)
      show ?thesis
      proof (cases "max_loop_traced ChildScore cs d (max a e) b md acc' bm'")
        case (Inl err)
        with Inr r m R q IH [of "max a e" acc' bm', symmetric]
        show ?thesis by (simp add: untraced_def Let_def)
      next
        case L: (Inr w)
        obtain v mv u where w: "w = (v, mv, u)" by (cases w)
        with L Inr r m R q IH [of "max a e" acc' bm', symmetric]
        show ?thesis by (simp add: untraced_def Let_def)
      qed
    qed
  qed
qed

lemma min_loop_untraced:
  assumes kids: "\<And>c a b. c \<in> set cs \<Longrightarrow>
      untraced (minimax_traced ChildScore c (d + 1) a b True md)
        = minimax c (d + 1) a b True md"
  shows "untraced (min_loop_traced ChildScore cs d a b md acc bm)
           = min_loop cs d a b md acc bm"
  using assms
proof (induction cs arbitrary: b acc bm)
  case Nil
  show ?case by (simp add: untraced_def)
next
  case (Cons c cs)
  have child: "untraced (minimax_traced ChildScore c (d + 1) a b True md)
      = minimax c (d + 1) a b True md"
    by (rule Cons.prems(1)) simp
  have IH: "untraced (min_loop_traced ChildScore cs d a b' md acc' bm')
      = min_loop cs d a b' md acc' bm'" for b' acc' bm'
    using Cons.prems(1) by (intro Cons.IH) auto
  show ?case
  proof (cases "minimax_traced ChildScore c (d + 1) a b True md")
    case (Inl err)
    with child [symmetric] show ?thesis by (simp add: untraced_def)
  next
    case (Inr r)
    obtain e x t where r: "r = (e, x, t)" by (cases r)
    have m: "minimax c (d + 1) a b True md = Inr (e, x)"
      using child Inr r by (simp add: untraced_def)
    show ?thesis
    proof (cases "if e < acc then map_sum id (\<lambda>m. (e, Some m)) (peek (board c))
                  else Inr (acc, bm)")
      case (Inl err)
      with Inr r m show ?thesis by (simp add: untraced_def)
    next
      case R: (Inr q)
      obtain acc' bm' where q: "q = (acc', bm')" by (cases q)
      show ?thesis
      proof (cases "min_loop_traced ChildScore cs d a (min b e) md acc' bm'")
        case (Inl err)
        with Inr r m R q IH [of "min b e" acc' bm', symmetric]
        show ?thesis by (simp add: untraced_def Let_def)
      next
        case L: (Inr w)
        obtain v mv u where w: "w = (v, mv, u)" by (cases w)
        with L Inr r m R q IH [of "min b e" acc' bm', symmetric]
        show ?thesis by (simp add: untraced_def Let_def)
      qed
    qed
  qed
qed

lemma minimax_untraced:
  "untraced (minimax_traced ChildScore s d a b mx md) = minimax s d a b mx md"
proof (induction "gsize (game (board s))" arbitrary: s d a b mx rule: less_induct)
  case less
  have kids: "untraced (minimax_traced ChildScore c (d + 1) a' b' mx' md)
      = minimax c (d + 1) a' b' mx' md"
    if "c \<in> set (moveGen s)" for c a' b' mx'
    using less.hyps [OF moveGen_child(1) [OF that]] .
  have mx: "untraced (max_loop_traced ChildScore (moveGen s) d a b md NegInf None)
      = max_loop (moveGen s) d a b md NegInf None"
    by (rule max_loop_untraced [OF kids])
  have mn: "untraced (min_loop_traced ChildScore (moveGen s) d a b md PosInf None)
      = min_loop (moveGen s) d a b md PosInf None"
    by (rule min_loop_untraced [OF kids])
  show ?case
  proof (cases "isTerminal s \<or> d = md")
    case True
    then show ?thesis
      by (simp add: minimax_traced.simps minimax.simps untraced_def)
  next
    case False
    show ?thesis
    proof (cases mx)
      case True
      with False mx [symmetric] show ?thesis
        by (cases "max_loop_traced ChildScore (moveGen s) d a b md NegInf None")
          (auto simp add: minimax_traced.simps minimax.simps untraced_def)
    next
      case black: False
      with False mn [symmetric] show ?thesis
        by (cases "min_loop_traced ChildScore (moveGen s) d a b md PosInf None")
          (auto simp add: minimax_traced.simps minimax.simps untraced_def)
    qed
  qed
qed

text \<open>
  C3. The program advances \<open>alpha\<close> (and \<open>beta\<close>) by the score of each child. Inside a
  loop the best score so far never exceeds \<open>alpha\<close> (is never below \<open>beta\<close>), so this is
  the bound the textbook rule computes from the running best: under either rule the
  search is called on the same states in the same order and returns the same score and
  the same move, and the search with the program's rule, its visits forgotten, is
  \<open>minimax\<close>.
\<close>

theorem bound_rules_agree:
  "minimax_traced RunningBest state depth alpha beta maximizingPlayer maxDepth
     = minimax_traced ChildScore state depth alpha beta maximizingPlayer maxDepth \<and>
   untraced (minimax_traced ChildScore state depth alpha beta maximizingPlayer maxDepth)
     = minimax state depth alpha beta maximizingPlayer maxDepth"
  by (simp only: minimax_traced_rule minimax_untraced)

theorem bound_rules_agree_witness:
  "minimax_traced RunningBest (state_of mate_in_one) 0 (Fin 5) (Fin 1) True 3
     = Inr (Fin 0, Some Kxb6,
         [state_of mate_in_one, \<lparr>board = \<lparr>game = after_Kxb6, move_stack = [Kxb6]\<rparr>\<rparr>]) \<and>
   minimax (state_of mate_in_one) 0 (Fin 5) (Fin 1) True 3 = Inr (Fin 0, Some Kxb6)"
proof -
  have traced: "minimax_traced ChildScore (state_of mate_in_one) 0 (Fin 5) (Fin 1) True 3
      = Inr (Fin 0, Some Kxb6,
          [state_of mate_in_one, \<lparr>board = \<lparr>game = after_Kxb6, move_stack = [Kxb6]\<rparr>\<rparr>])"
    by (simp add: minimax_traced.simps state_of_def mate_in_one_def mate_in_one_replies_def
        moveGen_def isTerminal_def push_def copy_def after_Kxb6_def after_Nxb6_def evaluate_def
        peek_def less_score_def max_def)
  note agree = bound_rules_agree [of "state_of mate_in_one" 0 "Fin 5" "Fin 1" True 3]
  show ?thesis
    unfolding agree [THEN conjunct1] agree [THEN conjunct2, symmetric] traced
    by (simp add: untraced_def)
qed

text \<open>
  The claim as written, that for some state, depth and bounds the program's rule stops a
  loop earlier or returns another move than the rule of the running best, has no
  instance.
\<close>

theorem bound_rules_differ_counterexample:
  "\<not> (\<exists>state depth alpha beta maximizingPlayer maxDepth.
        minimax_traced ChildScore state depth alpha beta maximizingPlayer maxDepth
          \<noteq> minimax_traced RunningBest state depth alpha beta maximizingPlayer maxDepth)"
  by (simp only: minimax_traced_rule not_ex not_not) simp

section \<open>The move returned\<close>










section \<open>A search one ply deep\<close>






end
